theory Spec2Isabelle
  imports Complex_Main
begin

section \<open>Quantum noise models for mobile QKD: a shallow embedding\<close>

text \<open>
  The development follows \<^verbatim>\<open>noise-models-4-mobileqkd.py\<close>. A key is a Python
  string, here a \<open>string\<close>; its symbols are the characters \<open>CHR ''0''\<close> and
  \<open>CHR ''1''\<close>, but, as in the source, nothing stops other characters. A noise model
  is named by a string, as in the source. A \<open>char\<close> stands for one character of a
  Python string. Python floats are read as reals; the one special value that the
  source can produce, NaN, is a value of its own.
\<close>

subsection \<open>Errors and floats\<close>

datatype error = ValueError | IndexError | ZeroDivisionError

text \<open>An exception ends the computation: the rest runs only on a value.\<close>

definition and_then :: "error + 'a \<Rightarrow> ('a \<Rightarrow> error + 'b) \<Rightarrow> error + 'b" where
  "and_then r f = (case r of Inl e \<Rightarrow> Inl e | Inr x \<Rightarrow> f x)"

datatype npfloat = Num real | NaN

text \<open>Comparisons with NaN are false, arithmetic with NaN is NaN.\<close>

fun fge :: "npfloat \<Rightarrow> real \<Rightarrow> bool" where
  "fge (Num x) c = (c \<le> x)"
| "fge NaN c = False"

fun fgt :: "npfloat \<Rightarrow> npfloat \<Rightarrow> bool" where
  "fgt (Num x) (Num y) = (y < x)"
| "fgt _ _ = False"

fun flt :: "npfloat \<Rightarrow> npfloat \<Rightarrow> bool" where
  "flt (Num x) (Num y) = (x < y)"
| "flt _ _ = False"

fun fle :: "npfloat \<Rightarrow> npfloat \<Rightarrow> bool" where
  "fle (Num x) (Num y) = (x \<le> y)"
| "fle _ _ = False"

fun fadd :: "npfloat \<Rightarrow> npfloat \<Rightarrow> npfloat" where
  "fadd (Num x) (Num y) = Num (x + y)"
| "fadd _ _ = NaN"

fun fsub :: "npfloat \<Rightarrow> npfloat \<Rightarrow> npfloat" where
  "fsub (Num x) (Num y) = Num (x - y)"
| "fsub _ _ = NaN"

subsection \<open>The random source\<close>

text \<open>
  The source draws from numpy's global generator with three calls:
  \<^verbatim>\<open>np.random.rand()\<close>, \<^verbatim>\<open>np.random.choice(['0','1'])\<close> and
  \<^verbatim>\<open>np.random.normal(0,0.1)\<close>. The random source is the state that is threaded
  through the program: for each kind of call, the sequence of values that the
  following calls of that kind return. Every run of the program is the run of the
  model on some such triple of sequences.
\<close>

record rng =
  rand_seq :: "nat \<Rightarrow> real"
  choice_seq :: "nat \<Rightarrow> bool"
  normal_seq :: "nat \<Rightarrow> real"

definition np_rand :: "rng \<Rightarrow> real \<times> rng" where
  "np_rand g = (rand_seq g 0, g\<lparr>rand_seq := (\<lambda>n. rand_seq g (Suc n))\<rparr>)"

definition np_choice :: "rng \<Rightarrow> char \<times> rng" where
  "np_choice g = (if choice_seq g 0 then CHR ''1'' else CHR ''0'',
                  g\<lparr>choice_seq := (\<lambda>n. choice_seq g (Suc n))\<rparr>)"

definition np_normal :: "rng \<Rightarrow> real \<times> rng" where
  "np_normal g = (normal_seq g 0, g\<lparr>normal_seq := (\<lambda>n. normal_seq g (Suc n))\<rparr>)"

subsection \<open>Noise simulation\<close>

text \<open>
  \<open>noise_rule\<close> is the body of the loop of \<^verbatim>\<open>apply_noise\<close>: one draw of
  \<^verbatim>\<open>rand\<close>, then the chain of comparisons of \<^verbatim>\<open>model\<close> in the order of the
  source. It returns the character appended to \<^verbatim>\<open>noisy\<close> and the random source
  after the draws of this iteration.
\<close>

definition flip_rule :: "char \<Rightarrow> bool \<Rightarrow> char" where
  "flip_rule b hit =
     (if b = CHR ''0'' \<and> hit then CHR ''1''
      else if b = CHR ''1'' \<and> hit then CHR ''0'' else b)"

definition noise_rule :: "string \<Rightarrow> real \<Rightarrow> nat \<Rightarrow> char \<Rightarrow> rng \<Rightarrow> char \<times> rng" where
  "noise_rule model p i b g =
     (let (rand, g1) = np_rand g in
      if model = ''Bit Flip'' then (flip_rule b (rand < p), g1)
      else if model = ''Phase Flip'' then (b, g1)
      else if model = ''Bit-Phase Flip'' then (flip_rule b (rand < p), g1)
      else if model = ''Depolarizing'' then
        (if rand < p then np_choice g1 else (b, g1))
      else if model = ''Amplitude Damping'' then
        (if b = CHR ''1'' \<and> rand < p then CHR ''0'' else b, g1)
      else if model = ''Generalized Amplitude Damping'' then
        (if b = CHR ''1'' \<and> rand < p * 0.6 then (CHR ''0'', g1)
         else if b = CHR ''0'' \<and> rand < p * 0.4 then (CHR ''1'', g1)
         else (b, g1))
      else if model = ''Phase Damping'' then (b, g1)
      else if model = ''Non-Markovian'' then
        (if rand < p \<and> i mod 2 = 0 then np_choice g1 else (b, g1))
      else if model = ''Collective Correlated'' then (flip_rule b (rand < p), g1)
      else if model = ''Gaussian Bosonic'' then
        (let (gs, g2) = np_normal g1 in
         if gs + p > 0.15 then np_choice g2 else (b, g2))
      else if model = ''Polarization Mode Dispersion'' then
        (flip_rule b (rand < p / 2), g1)
      else if model = ''Photon Number Splitting'' then
        (if b = CHR ''1'' \<and> rand < p then CHR ''1'' else b, g1)
      else (b, g1))"

text \<open>
  The loop \<^verbatim>\<open>for i, bit in enumerate(key)\<close>, with the index \<open>i\<close>, the rest of the
  key, the accumulator \<^verbatim>\<open>noisy\<close> and the random source.
\<close>

fun apply_noise_loop ::
  "string \<Rightarrow> real \<Rightarrow> nat \<Rightarrow> string \<Rightarrow> string \<Rightarrow> rng \<Rightarrow> string \<times> rng" where
  "apply_noise_loop model p i [] noisy g = (noisy, g)"
| "apply_noise_loop model p i (b # rest) noisy g =
     (case noise_rule model p i b g of
        (c, g') \<Rightarrow> apply_noise_loop model p (Suc i) rest (noisy @ [c]) g')"

definition apply_noise :: "string \<Rightarrow> real \<Rightarrow> string \<Rightarrow> rng \<Rightarrow> string \<times> rng" where
  "apply_noise key p model g = apply_noise_loop model p 0 key [] g"

subsection \<open>Metrics\<close>

text \<open>
  \<^verbatim>\<open>sum(o!=n for o,n in zip(orig,noisy)) / len(orig)\<close>: \<^verbatim>\<open>zip\<close> stops at the
  shorter argument, and the division raises \<^verbatim>\<open>ZeroDivisionError\<close> when
  \<^verbatim>\<open>orig\<close> is empty.
\<close>

definition qber :: "string \<Rightarrow> string \<Rightarrow> error + real" where
  "qber orig noisy =
     (let s = length (filter (\<lambda>(x, y). x \<noteq> y) (zip orig noisy)) in
      if length orig = 0 then Inl ZeroDivisionError
      else Inr (real s / real (length orig)))"

text \<open>
  \<^verbatim>\<open>shannon_entropy\<close>: outside of \<open>[0, 1]\<close> one of the two logarithms has a
  negative argument, for which \<^verbatim>\<open>np.log2\<close> returns NaN, and so does the sum.
\<close>

definition shannon_entropy :: "real \<Rightarrow> npfloat" where
  "shannon_entropy q =
     (if q = 0 \<or> q = 1 then Num 0
      else if 0 < q \<and> q < 1 then Num (- q * log 2 q - (1 - q) * log 2 (1 - q))
      else NaN)"

definition adaptive_amplification :: "npfloat \<Rightarrow> real" where
  "adaptive_amplification ent =
     (if fge ent 0.9 then 1.0
      else if fge ent 0.75 then 0.75
      else if fge ent 0.6 then 0.6
      else 0.5)"

text \<open>Python's \<^verbatim>\<open>int\<close> of a float truncates towards zero.\<close>

definition py_int :: "real \<Rightarrow> int" where
  "py_int x = (if 0 \<le> x then \<lfloor>x\<rfloor> else \<lceil>x\<rceil>)"

subsection \<open>The sweep\<close>

text \<open>
  The globals of the source: the key length, the model list and, in
  \<^verbatim>\<open>unified_comparison_all_models\<close>, the grid \<^verbatim>\<open>np.linspace(0.01, 0.3, 12)\<close>.
  The original key is drawn at random, so it is a parameter, and the sweep below takes
  the other three as parameters as well.
\<close>

definition key_length :: nat where
  "key_length = 512"

definition noise_models :: "string list" where
  "noise_models =
     [''Bit Flip'', ''Phase Flip'', ''Bit-Phase Flip'', ''Depolarizing'',
      ''Amplitude Damping'', ''Generalized Amplitude Damping'', ''Phase Damping'',
      ''Non-Markovian'', ''Collective Correlated'', ''Gaussian Bosonic'',
      ''Polarization Mode Dispersion'', ''Photon Number Splitting'']"

definition noise_range :: "real list" where
  "noise_range = map (\<lambda>k. 0.01 + real k * ((0.3 - 0.01) / 11)) [0..<12]"

text \<open>\<^verbatim>\<open>ada = int(key_length * adaptive_amplification(ent))\<close>\<close>

definition retained_bits :: "nat \<Rightarrow> npfloat \<Rightarrow> int" where
  "retained_bits kl ent = py_int (real kl * adaptive_amplification ent)"

text \<open>
  \<^verbatim>\<open>np.mean\<close> of a one-dimensional array: NaN (and a warning, no exception) when
  the array is empty.
\<close>

fun fdivn :: "npfloat \<Rightarrow> nat \<Rightarrow> npfloat" where
  "fdivn (Num x) n = Num (x / real n)"
| "fdivn NaN n = NaN"

definition np_mean :: "npfloat list \<Rightarrow> npfloat" where
  "np_mean xs = (if xs = [] then NaN else fdivn (foldl fadd (Num 0) xs) (length xs))"

text \<open>\<^verbatim>\<open>np.mean(np.array(adaps) - static_baseline)\<close>\<close>

definition model_gain :: "int \<Rightarrow> int list \<Rightarrow> npfloat" where
  "model_gain static_baseline adaps =
     np_mean (map (\<lambda>a. Num (real_of_int (a - static_baseline))) adaps)"

text \<open>
  The dictionary \<^verbatim>\<open>model_gains\<close> keeps its keys in the order of their first
  insertion; storing under a key that is present replaces the value in place.
\<close>

fun dict_set :: "('k \<times> 'v) list \<Rightarrow> 'k \<Rightarrow> 'v \<Rightarrow> ('k \<times> 'v) list" where
  "dict_set [] k v = [(k, v)]"
| "dict_set ((k', v') # d) k v =
     (if k' = k then (k', v) # d else (k', v') # dict_set d k v)"

text \<open>The inner loop \<^verbatim>\<open>for p in noise_range\<close>, with the accumulator \<^verbatim>\<open>adaps\<close>.\<close>

fun grid_loop ::
  "nat \<Rightarrow> string \<Rightarrow> string \<Rightarrow> real list \<Rightarrow> int list \<Rightarrow> rng \<Rightarrow> error + (int list \<times> rng)" where
  "grid_loop kl original_key model [] adaps g = Inr (adaps, g)"
| "grid_loop kl original_key model (p # ps) adaps g =
     (case apply_noise original_key p model g of
        (nk, g') \<Rightarrow>
          (case qber original_key nk of
             Inl e \<Rightarrow> Inl e
           | Inr q \<Rightarrow>
               (let ent = fsub (Num 1) (shannon_entropy q);
                    ada = retained_bits kl ent
                in grid_loop kl original_key model ps (adaps @ [ada]) g')))"

text \<open>
  The outer loop \<^verbatim>\<open>for model in noise_models\<close>, with the accumulators
  \<^verbatim>\<open>adaptive_matrix\<close> and \<^verbatim>\<open>model_gains\<close>.
\<close>

fun model_loop ::
  "nat \<Rightarrow> string \<Rightarrow> real list \<Rightarrow> string list \<Rightarrow> int list list \<Rightarrow> (string \<times> npfloat) list \<Rightarrow> rng
   \<Rightarrow> error + (int list list \<times> (string \<times> npfloat) list \<times> rng)" where
  "model_loop kl original_key grid [] matrix gains g = Inr (matrix, gains, g)"
| "model_loop kl original_key grid (model # ms) matrix gains g =
     (case grid_loop kl original_key model grid [] g of
        Inl e \<Rightarrow> Inl e
      | Inr (adaps, g') \<Rightarrow>
          model_loop kl original_key grid ms (matrix @ [adaps])
            (dict_set gains model (model_gain (int (kl div 2)) adaps)) g')"

text \<open>
  Reductions along axis 0 of the two-dimensional array made of the rows. With no row
  the array is one-dimensional and empty: \<^verbatim>\<open>mean\<close> is then NaN, and \<^verbatim>\<open>min\<close> and
  \<^verbatim>\<open>max\<close> raise \<^verbatim>\<open>ValueError\<close> (a zero-size array has no minimum). With rows of
  length zero the results are empty arrays.
\<close>

fun mean_axis0 :: "int list list \<Rightarrow> npfloat list" where
  "mean_axis0 [] = []"
| "mean_axis0 (r # rs) =
     map (\<lambda>j. np_mean (map (\<lambda>row. Num (real_of_int (row ! j))) (r # rs))) [0..<length r]"

fun min_axis0 :: "int list list \<Rightarrow> error + int list" where
  "min_axis0 [] = Inl ValueError"
| "min_axis0 (r # rs) =
     Inr (map (\<lambda>j. foldl min (r ! j) (map (\<lambda>row. row ! j) rs)) [0..<length r])"

fun max_axis0 :: "int list list \<Rightarrow> error + int list" where
  "max_axis0 [] = Inl ValueError"
| "max_axis0 (r # rs) =
     Inr (map (\<lambda>j. foldl max (r ! j) (map (\<lambda>row. row ! j) rs)) [0..<length r])"

text \<open>
  \<^verbatim>\<open>max(model_gains, key=model_gains.get)\<close> goes through the keys in the order of
  the dictionary and compares the values stored under them; it keeps the first key
  and replaces it only by one whose value is strictly greater. The model goes through
  the items and returns the winning key with its value, which is what
  \<^verbatim>\<open>model_gains[best_model]\<close> then reads. \<^verbatim>\<open>min\<close> is the same with strictly
  smaller. Both raise \<^verbatim>\<open>ValueError\<close> on an empty dictionary.
\<close>

fun py_max_item :: "('k \<times> npfloat) list \<Rightarrow> error + ('k \<times> npfloat)" where
  "py_max_item [] = Inl ValueError"
| "py_max_item (x # xs) =
     Inr (foldl (\<lambda>best y. if fgt (snd y) (snd best) then y else best) x xs)"

fun py_min_item :: "('k \<times> npfloat) list \<Rightarrow> error + ('k \<times> npfloat)" where
  "py_min_item [] = Inl ValueError"
| "py_min_item (x # xs) =
     Inr (foldl (\<lambda>best y. if flt (snd y) (snd best) then y else best) x xs)"

text \<open>\<^verbatim>\<open>list.index\<close>, and reading the last element with \<^verbatim>\<open>[-1]\<close>.\<close>

fun list_index :: "'a list \<Rightarrow> 'a \<Rightarrow> error + nat" where
  "list_index [] x = Inl ValueError"
| "list_index (y # ys) x =
     (if y = x then Inr 0
      else (case list_index ys x of Inl e \<Rightarrow> Inl e | Inr n \<Rightarrow> Inr (Suc n)))"

definition get_row :: "'a list \<Rightarrow> nat \<Rightarrow> error + 'a" where
  "get_row xs i = (if i < length xs then Inr (xs ! i) else Inl IndexError)"

definition get_last :: "'a list \<Rightarrow> error + 'a" where
  "get_last xs = (if xs = [] then Inl IndexError else Inr (last xs))"

text \<open>
  The plotting part of the function draws and returns nothing; what it can do to the
  result is to raise, at the index expressions among the arguments of its calls:
  \<^verbatim>\<open>noise_models.index\<close> of the best and the worst model, the rows
  \<^verbatim>\<open>adaptive_matrix[idx_best]\<close> and \<^verbatim>\<open>adaptive_matrix[idx_worst]\<close>, and the
  last elements \<^verbatim>\<open>noise_range[-1]\<close>, \<^verbatim>\<open>adaptive_matrix[idx_best][-1]\<close>,
  \<^verbatim>\<open>adaptive_matrix[idx_worst][-1]\<close>, in this order.
\<close>

definition plot_indexing ::
  "real list \<Rightarrow> string list \<Rightarrow> int list list \<Rightarrow> string \<Rightarrow> string \<Rightarrow> error + unit" where
  "plot_indexing grid models matrix best worst =
     and_then (list_index models best) (\<lambda>idx_best.
     and_then (list_index models worst) (\<lambda>idx_worst.
     and_then (get_row matrix idx_best) (\<lambda>row_best.
     and_then (get_row matrix idx_worst) (\<lambda>row_worst.
     and_then (get_last grid) (\<lambda>_.
     and_then (get_last row_best) (\<lambda>_.
     and_then (get_last grid) (\<lambda>_.
     and_then (get_last row_worst) (\<lambda>_. Inr ()))))))))"

text \<open>
  The statistics of the sweep, as lines 74 to 99 of the function compute them, before
  anything is plotted: the loops over the models and the grid, the reductions along
  axis 0, and the selection of the best and the worst model.
\<close>

record statistics =
  st_adaptive_matrix :: "int list list"
  st_model_gains :: "(string \<times> npfloat) list"
  st_mean_adaptive :: "npfloat list"
  st_min_adaptive :: "int list"
  st_max_adaptive :: "int list"
  st_best_model :: string
  st_worst_model :: string
  st_best_gain :: npfloat
  st_worst_gain :: npfloat

definition sweep_statistics ::
  "nat \<Rightarrow> string \<Rightarrow> string list \<Rightarrow> real list \<Rightarrow> rng \<Rightarrow> error + statistics" where
  "sweep_statistics kl original_key models grid g =
     and_then (model_loop kl original_key grid models [] [] g) (\<lambda>(matrix, gains, g').
     (let mean_ad = mean_axis0 matrix in
     and_then (min_axis0 matrix) (\<lambda>min_ad.
     and_then (max_axis0 matrix) (\<lambda>max_ad.
     and_then (py_max_item gains) (\<lambda>(best, bgain).
     and_then (py_min_item gains) (\<lambda>(worst, wgain).
       Inr \<lparr>st_adaptive_matrix = matrix, st_model_gains = gains,
            st_mean_adaptive = mean_ad, st_min_adaptive = min_ad, st_max_adaptive = max_ad,
            st_best_model = best, st_worst_model = worst,
            st_best_gain = bgain, st_worst_gain = wgain\<rparr>))))))"

text \<open>
  What the function as a whole computes and hands to the plot and to the textual
  summary: the statistics, then the index expressions of the plot, then the two
  figures of the summary.
\<close>

record summary =
  adaptive_matrix :: "int list list"
  model_gains :: "(string \<times> npfloat) list"
  mean_adaptive :: "npfloat list"
  min_adaptive :: "int list"
  max_adaptive :: "int list"
  best_model :: string
  worst_model :: string
  best_gain :: npfloat
  worst_gain :: npfloat
  avg_gain :: npfloat
  gain_at_max :: npfloat

definition unified_comparison_all_models ::
  "nat \<Rightarrow> string \<Rightarrow> string list \<Rightarrow> real list \<Rightarrow> rng \<Rightarrow> error + summary" where
  "unified_comparison_all_models kl original_key models grid g =
     (let static_baseline = int (kl div 2) in
      and_then (model_loop kl original_key grid models [] [] g) (\<lambda>(matrix, gains, g').
      (let mean_ad = mean_axis0 matrix in
      and_then (min_axis0 matrix) (\<lambda>min_ad.
      and_then (max_axis0 matrix) (\<lambda>max_ad.
      and_then (py_max_item gains) (\<lambda>(best, bgain).
      and_then (py_min_item gains) (\<lambda>(worst, wgain).
      and_then (plot_indexing grid models matrix best worst) (\<lambda>_.
      (let avg = np_mean (map (\<lambda>x. fsub x (Num (real_of_int static_baseline))) mean_ad) in
      and_then (get_last mean_ad) (\<lambda>mean_last.
        Inr \<lparr>adaptive_matrix = matrix, model_gains = gains, mean_adaptive = mean_ad,
             min_adaptive = min_ad, max_adaptive = max_ad,
             best_model = best, worst_model = worst,
             best_gain = bgain, worst_gain = wgain,
             avg_gain = avg,
             gain_at_max = fsub mean_last (Num (real_of_int static_baseline))\<rparr>))))))))))"

text \<open>
  A random source whose draws are constant, to run the program on concrete inputs.
\<close>

definition const_rng :: "real \<Rightarrow> bool \<Rightarrow> real \<Rightarrow> rng" where
  "const_rng r c n = \<lparr>rand_seq = (\<lambda>_. r), choice_seq = (\<lambda>_. c), normal_seq = (\<lambda>_. n)\<rparr>"

text \<open>
  The summary of the sweep of a key of two bits over three models and a grid of one
  probability, with the constant random source whose uniform draws are 0.
\<close>

definition sweep_example :: summary where
  "sweep_example =
     \<lparr>adaptive_matrix = [[2], [1], [2]],
      model_gains = [(''Phase Flip'', Num 1), (''Amplitude Damping'', Num 0),
                     (''Phase Damping'', Num 1)],
      mean_adaptive = [Num (5 / 3)], min_adaptive = [1], max_adaptive = [2],
      best_model = ''Phase Flip'', worst_model = ''Amplitude Damping'',
      best_gain = Num 1, worst_gain = Num 0,
      avg_gain = Num (2 / 3), gain_at_max = Num (2 / 3)\<rparr>"

section \<open>Properties of the noise channel\<close>

lemma np_rand_const [simp]: "np_rand (const_rng r c n) = (r, const_rng r c n)"
  by (simp add: np_rand_def const_rng_def)

lemma np_choice_const [simp]:
  "np_choice (const_rng r c n) = (if c then CHR ''1'' else CHR ''0'', const_rng r c n)"
  by (simp add: np_choice_def const_rng_def)

lemma np_normal_const [simp]: "np_normal (const_rng r c n) = (n, const_rng r c n)"
  by (simp add: np_normal_def const_rng_def)

lemma apply_noise_loop_length:
  "length (fst (apply_noise_loop model p i key noisy g)) = length noisy + length key"
  by (induction key arbitrary: i noisy g) (auto split: prod.splits)

text \<open>
  Claim C1. For every key, probability, model name (one of the twelve or not) and
  random source, \<open>apply_noise\<close> returns a key as long as its input. The input is a
  value, which nothing changes: the source builds the result in a string of its own,
  starting from the empty one.
\<close>

theorem apply_noise_length:
  "length (fst (apply_noise key p model g)) = length key"
  by (simp add: apply_noise_def apply_noise_loop_length)

theorem apply_noise_length_witness:
  "length (fst (apply_noise ''0110'' 0.5 ''Depolarizing'' (const_rng 0 True 0))) = 4 \<and>
   length (fst (apply_noise ''0110'' 0.5 ''No Such Model'' (const_rng 0 True 0))) = 4"
  using apply_noise_length [of "''0110''" "0.5" "''Depolarizing''" "const_rng 0 True 0"]
        apply_noise_length [of "''0110''" "0.5" "''No Such Model''" "const_rng 0 True 0"]
  by simp

lemma noise_rule_pns:
  "fst (noise_rule ''Photon Number Splitting'' p i b g) = b"
  by (simp add: noise_rule_def split: prod.splits)

lemma apply_noise_loop_pns:
  "fst (apply_noise_loop ''Photon Number Splitting'' p i key noisy g) = noisy @ key"
proof (induction key arbitrary: i noisy g)
  case Nil
  show ?case by simp
next
  case (Cons b rest)
  obtain c g' where r: "noise_rule ''Photon Number Splitting'' p i b g = (c, g')"
    by (cases "noise_rule ''Photon Number Splitting'' p i b g")
  with noise_rule_pns [of p i b g] have "c = b" by simp
  with r Cons.IH [of "Suc i" "noisy @ [b]" g'] show ?case by simp
qed

text \<open>
  Claim C6. With the model Photon Number Splitting, \<open>apply_noise\<close> returns its input
  key, for every key, probability and random source: the rule replaces a 1 by a 1.
\<close>

theorem pns_identity:
  "fst (apply_noise key p ''Photon Number Splitting'' g) = key"
  by (simp add: apply_noise_def apply_noise_loop_pns)

theorem pns_identity_witness:
  "fst (apply_noise ''0110'' 1 ''Photon Number Splitting'' (const_rng 0 False 0)) = ''0110''"
  using pns_identity [of "''0110''" 1 "const_rng 0 False 0"] by simp

lemma apply_noise_loop_cong:
  assumes "\<And>i b g. noise_rule m1 p i b g = noise_rule m2 p i b g"
  shows "apply_noise_loop m1 p i key noisy g = apply_noise_loop m2 p i key noisy g"
  using assms by (induction key arbitrary: i noisy g) (auto split: prod.splits)

lemma noise_rule_bpf:
  "noise_rule ''Bit-Phase Flip'' p i b g = noise_rule ''Bit Flip'' p i b g"
  by (simp add: noise_rule_def)

lemma noise_rule_cc:
  "noise_rule ''Collective Correlated'' p i b g = noise_rule ''Bit Flip'' p i b g"
  by (simp add: noise_rule_def)

text \<open>
  Claim C7. On the same key, probability and random source, the models Bit-Phase Flip
  and Collective Correlated each return what Bit Flip returns: the same noisy key, and
  the same random source after it.
\<close>

theorem flip_models_agree:
  "apply_noise key p ''Bit-Phase Flip'' g = apply_noise key p ''Bit Flip'' g \<and>
   apply_noise key p ''Collective Correlated'' g = apply_noise key p ''Bit Flip'' g"
  unfolding apply_noise_def
  using apply_noise_loop_cong [of "''Bit-Phase Flip''" p "''Bit Flip''" 0 key "[]" g]
        apply_noise_loop_cong [of "''Collective Correlated''" p "''Bit Flip''" 0 key "[]" g]
  by (simp add: noise_rule_bpf noise_rule_cc)

lemma bit_flip_run:
  "fst (apply_noise ''0110'' 0.5 ''Bit Flip'' (const_rng 0 False 0)) = ''1001''"
  by (simp add: apply_noise_def noise_rule_def flip_rule_def)

theorem flip_models_agree_witness:
  "fst (apply_noise ''0110'' 0.5 ''Bit-Phase Flip'' (const_rng 0 False 0)) = ''1001'' \<and>
   fst (apply_noise ''0110'' 0.5 ''Collective Correlated'' (const_rng 0 False 0)) = ''1001''"
  using flip_models_agree [of "''0110''" "0.5" "const_rng 0 False 0"] bit_flip_run
  by simp

section \<open>Properties of the adaptive policy\<close>

lemma adaptive_amplification_ge_half: "0.5 \<le> adaptive_amplification e"
  by (simp add: adaptive_amplification_def)

text \<open>
  Claim C2. The thresholds of \<open>adaptive_amplification\<close> are inclusive lower bounds,
  tried from the highest down: from 0.9 on the fraction is 1.0, below that from 0.75
  on it is 0.75, below that from 0.6 on it is 0.6, and 0.5 otherwise (also on NaN,
  which no comparison accepts). The retained-bit count that the sweep computes from
  it, \<open>int(key_length * fraction)\<close>, is the floor of the product.
\<close>

theorem adaptive_amplification_thresholds:
  "(0.9 \<le> x \<longrightarrow> adaptive_amplification (Num x) = 1.0) \<and>
   (0.75 \<le> x \<and> x < 0.9 \<longrightarrow> adaptive_amplification (Num x) = 0.75) \<and>
   (0.6 \<le> x \<and> x < 0.75 \<longrightarrow> adaptive_amplification (Num x) = 0.6) \<and>
   (x < 0.6 \<longrightarrow> adaptive_amplification (Num x) = 0.5) \<and>
   adaptive_amplification NaN = 0.5 \<and>
   retained_bits n e = \<lfloor>real n * adaptive_amplification e\<rfloor>"
proof -
  have "0 \<le> real n * adaptive_amplification e"
    using adaptive_amplification_ge_half [of e] by simp
  then have "retained_bits n e = \<lfloor>real n * adaptive_amplification e\<rfloor>"
    by (simp add: retained_bits_def py_int_def)
  then show ?thesis
    by (simp add: adaptive_amplification_def)
qed

theorem adaptive_amplification_thresholds_witness:
  "adaptive_amplification (Num 0.9) = 1.0 \<and>
   adaptive_amplification (Num 0.75) = 0.75 \<and>
   adaptive_amplification (Num 0.6) = 0.6 \<and>
   adaptive_amplification (Num 0.59) = 0.5 \<and>
   retained_bits 512 (Num 0.6) = 307"
proof -
  have a: "adaptive_amplification (Num 0.9) = 1.0"
    using adaptive_amplification_thresholds [of "0.9" 512 "Num 0.6"] by simp
  have b: "adaptive_amplification (Num 0.75) = 0.75"
    using adaptive_amplification_thresholds [of "0.75" 512 "Num 0.6"] by simp
  have c: "adaptive_amplification (Num 0.6) = 0.6"
    using adaptive_amplification_thresholds [of "0.6" 512 "Num 0.6"] by simp
  have d: "adaptive_amplification (Num 0.59) = 0.5"
    using adaptive_amplification_thresholds [of "0.59" 512 "Num 0.6"] by simp
  have "retained_bits 512 (Num 0.6) = \<lfloor>real 512 * adaptive_amplification (Num 0.6)\<rfloor>"
    using adaptive_amplification_thresholds [of "0.6" 512 "Num 0.6"] by blast
  also have "\<dots> = \<lfloor>real 512 * 0.6\<rfloor>"
    by (simp only: c)
  also have "\<dots> = 307"
    by simp
  finally show ?thesis
    using a b c d by simp
qed

text \<open>
  Claim C8. \<open>adaptive_amplification\<close> is monotonically non-decreasing in its input,
  and each of its results is one of 0.5, 0.6, 0.75 and 1.0.
\<close>

theorem adaptive_amplification_mono_range:
  "(x \<le> y \<longrightarrow> adaptive_amplification (Num x) \<le> adaptive_amplification (Num y)) \<and>
   adaptive_amplification e \<in> {0.5, 0.6, 0.75, 1.0}"
  by (simp add: adaptive_amplification_def)

theorem adaptive_amplification_mono_range_witness:
  "adaptive_amplification (Num 0.7) \<le> adaptive_amplification (Num 0.8) \<and>
   adaptive_amplification (Num 0.8) \<in> {0.5, 0.6, 0.75, 1.0}"
  using adaptive_amplification_mono_range [of "0.7" "0.8" "Num 0.8"]
  by simp

section \<open>Properties of the error rate\<close>

lemma mismatch_count:
  "length (filter (\<lambda>(x, y). x \<noteq> y) (zip xs ys)) =
   card {i. i < min (length xs) (length ys) \<and> xs ! i \<noteq> ys ! i}"
proof -
  have "{i. i < length (zip xs ys) \<and> (\<lambda>(x, y). x \<noteq> y) (zip xs ys ! i)} =
        {i. i < min (length xs) (length ys) \<and> xs ! i \<noteq> ys ! i}"
    by auto
  then show ?thesis
    by (simp only: length_filter_conv_card)
qed

lemma mismatch_count_commute:
  "length (filter (\<lambda>(x, y). x \<noteq> y) (zip xs ys)) =
   length (filter (\<lambda>(x, y). x \<noteq> y) (zip ys xs))"
  by (simp add: mismatch_count min.commute) (metis)

text \<open>
  Claim C4, as the code has it. \<open>qber\<close> has no check of the lengths and never fails
  for a mismatch: on a non-empty original key it returns the number of positions,
  among those that both keys have, where the symbols differ, divided by the length of
  the original key; so for two non-empty keys of equal length, the fraction of
  positions where they differ. On an empty original key it raises
  \<open>ZeroDivisionError\<close>, whatever the other key is.
\<close>

theorem qber_value:
  "(orig \<noteq> [] \<longrightarrow>
      qber orig noisy =
        Inr (real (card {i. i < min (length orig) (length noisy) \<and> orig ! i \<noteq> noisy ! i})
             / real (length orig))) \<and>
   (orig = [] \<longrightarrow> qber orig noisy = Inl ZeroDivisionError)"
  by (simp add: qber_def mismatch_count)

theorem qber_value_witness:
  "qber ''0110'' ''0011'' = Inr (1 / 2) \<and> qber [] ''01'' = Inl ZeroDivisionError"
proof -
  have "{i. i < min (length ''0110'') (length ''0011'') \<and> ''0110'' ! i \<noteq> ''0011'' ! i} = {1, 3}"
    by (auto simp: nth_Cons' less_Suc_eq)
  then show ?thesis
    using qber_value [of "''0110''" "''0011''"] qber_value [of "[]" "''01''"] by simp
qed

text \<open>
  The claim as the specification states it fails: two keys of lengths 1 and 2 get an
  error rate, not an error.
\<close>

theorem qber_mismatch_counterexample:
  "length ''0'' \<noteq> length ''11'' \<and> qber ''0'' ''11'' = Inr 1"
  by (simp add: qber_def)

text \<open>
  Claim C9, as the code has it. \<open>qber k k\<close> is 0 for every non-empty key \<open>k\<close>, and
  \<open>qber\<close> is symmetric on keys of equal length (on two empty keys both sides raise
  \<open>ZeroDivisionError\<close>).
\<close>

theorem qber_self_sym:
  "(k \<noteq> [] \<longrightarrow> qber k k = Inr 0) \<and>
   (length a = length b \<longrightarrow> qber a b = qber b a)"
proof -
  have "filter (\<lambda>(x, y). x \<noteq> y) (zip k k) = []"
    by (auto simp: filter_empty_conv zip_same)
  then have "k \<noteq> [] \<longrightarrow> qber k k = Inr 0"
    by (simp add: qber_def)
  moreover have "length a = length b \<longrightarrow> qber a b = qber b a"
    using mismatch_count_commute [of a b] by (simp add: qber_def)
  ultimately show ?thesis by simp
qed

theorem qber_self_sym_witness:
  "qber ''01'' ''01'' = Inr 0 \<and> qber ''01'' ''11'' = qber ''11'' ''01''"
  using qber_self_sym [of "''01''" "''01''" "''11''"] by simp

text \<open>
  The claim as the specification states it fails on the empty key, where \<open>qber\<close>
  raises, and on keys of different lengths, where the divisor depends on the order of
  the arguments.
\<close>

theorem qber_self_sym_counterexample:
  "qber [] [] \<noteq> Inr 0 \<and> qber ''0'' ''11'' \<noteq> qber ''11'' ''0''"
  by (simp add: qber_def)

section \<open>Properties of the sweep\<close>

subsection \<open>The loops\<close>

lemma retained_bits_ge_baseline: "int (kl div 2) \<le> retained_bits kl e"
proof -
  have "2 * (kl div 2) \<le> kl"
    by simp
  then have "real (2 * (kl div 2)) \<le> real kl"
    by (simp only: of_nat_le_iff)
  then have "real (kl div 2) \<le> real kl / 2"
    by simp
  also have "\<dots> \<le> real kl * adaptive_amplification e"
    using mult_left_mono [OF adaptive_amplification_ge_half [of e], of "real kl"]
    by simp
  finally have le: "real (kl div 2) \<le> real kl * adaptive_amplification e" .
  then have "0 \<le> real kl * adaptive_amplification e"
    by (meson of_nat_0_le_iff order_trans)
  then have "retained_bits kl e = \<lfloor>real kl * adaptive_amplification e\<rfloor>"
    by (simp add: retained_bits_def py_int_def)
  moreover have "int (kl div 2) \<le> \<lfloor>real kl * adaptive_amplification e\<rfloor>"
    using le by (simp add: le_floor_iff)
  ultimately show ?thesis by simp
qed

lemma grid_loop_inv:
  "grid_loop kl key model ps adaps g = Inr (adaps', g') \<Longrightarrow>
   \<exists>new. adaps' = adaps @ new \<and> length new = length ps \<and>
         (\<forall>a \<in> set new. int (kl div 2) \<le> a)"
proof (induction ps arbitrary: adaps g)
  case Nil
  then show ?case by simp
next
  case (Cons p ps)
  obtain nk g1 where an: "apply_noise key p model g = (nk, g1)"
    by (cases "apply_noise key p model g")
  from Cons.prems an obtain q where q: "qber key nk = Inr q"
    by (cases "qber key nk") auto
  let ?ada = "retained_bits kl (fsub (Num 1) (shannon_entropy q))"
  from Cons.prems an q
  have "grid_loop kl key model ps (adaps @ [?ada]) g1 = Inr (adaps', g')"
    by simp
  from Cons.IH [OF this] obtain new where
    new: "adaps' = (adaps @ [?ada]) @ new" "length new = length ps"
         "\<forall>a \<in> set new. int (kl div 2) \<le> a"
    by blast
  have "adaps' = adaps @ (?ada # new)" using new(1) by simp
  moreover have "length (?ada # new) = length (p # ps)" using new(2) by simp
  moreover have "\<forall>a \<in> set (?ada # new). int (kl div 2) \<le> a"
    using new(3) retained_bits_ge_baseline by simp
  ultimately show ?case by blast
qed

lemma grid_loop_total:
  "key \<noteq> [] \<Longrightarrow> \<exists>r. grid_loop kl key model ps adaps g = Inr r"
proof (induction ps arbitrary: adaps g)
  case Nil
  show ?case by simp
next
  case (Cons p ps)
  obtain nk g1 where an: "apply_noise key p model g = (nk, g1)"
    by (cases "apply_noise key p model g")
  from Cons.prems obtain q where q: "qber key nk = Inr q"
    by (auto simp: qber_def Let_def)
  show ?case
    using Cons.IH [OF Cons.prems] an q by simp
qed

lemma foldl_fadd_Num:
  "foldl fadd (Num a) (map Num xs) = Num (a + sum_list xs)"
  by (induction xs arbitrary: a) (simp_all add: add.assoc)

lemma np_mean_Num:
  "np_mean (map Num xs) = (if xs = [] then NaN else Num (sum_list xs / real (length xs)))"
  by (simp add: np_mean_def foldl_fadd_Num)

lemma model_gain_value:
  "model_gain sb adaps =
     (if adaps = [] then NaN
      else Num ((\<Sum>a\<leftarrow>adaps. real_of_int (a - sb)) / real (length adaps)))"
proof -
  have "map (\<lambda>a. Num (real_of_int (a - sb))) adaps =
        map Num (map (\<lambda>a. real_of_int (a - sb)) adaps)"
    by simp
  then show ?thesis
    unfolding model_gain_def by (simp only: np_mean_Num) simp
qed

lemma dict_set_keys:
  "map fst (dict_set d k v) = (if k \<in> set (map fst d) then map fst d else map fst d @ [k])"
  by (induction d) (auto simp: image_iff split: if_splits)

lemma dict_set_items: "set (dict_set d k v) \<subseteq> insert (k, v) (set d)"
  by (induction d) (auto split: if_splits)

lemma dict_set_nonempty: "dict_set d k v \<noteq> []"
  by (cases d) (auto split: if_splits)

lemma grid_loop_total':
  "key \<noteq> [] \<or> ps = [] \<Longrightarrow> \<exists>r. grid_loop kl key model ps adaps g = Inr r"
  using grid_loop_total [of key kl model ps adaps g] by (cases ps) auto

lemma model_loop_matrix:
  "model_loop kl key grid ms matrix gains g = Inr (matrix', gains', g') \<Longrightarrow>
   \<exists>new. matrix' = matrix @ new \<and> length new = length ms \<and>
         (\<forall>row \<in> set new. length row = length grid \<and> (\<forall>a \<in> set row. int (kl div 2) \<le> a))"
proof (induction ms arbitrary: matrix gains g)
  case Nil
  then show ?case by simp
next
  case (Cons model ms)
  from Cons.prems obtain adaps g1 where
    gl: "grid_loop kl key model grid [] g = Inr (adaps, g1)"
    by (cases "grid_loop kl key model grid [] g") auto
  let ?gains = "dict_set gains model (model_gain (int (kl div 2)) adaps)"
  from Cons.prems gl
  have "model_loop kl key grid ms (matrix @ [adaps]) ?gains g1 = Inr (matrix', gains', g')"
    by simp
  from Cons.IH [OF this] obtain new where
    new: "matrix' = (matrix @ [adaps]) @ new" "length new = length ms"
         "\<forall>row \<in> set new. length row = length grid \<and> (\<forall>a \<in> set row. int (kl div 2) \<le> a)"
    by blast
  from grid_loop_inv [OF gl]
  have ad: "length adaps = length grid" "\<forall>a \<in> set adaps. int (kl div 2) \<le> a"
    by auto
  have "matrix' = matrix @ (adaps # new)" using new(1) by simp
  moreover have "length (adaps # new) = length (model # ms)" using new(2) by simp
  moreover have "\<forall>row \<in> set (adaps # new).
                   length row = length grid \<and> (\<forall>a \<in> set row. int (kl div 2) \<le> a)"
    using new(3) ad by simp
  ultimately show ?case by blast
qed

lemma model_loop_keys:
  "model_loop kl key grid ms matrix gains g = Inr (matrix', gains', g') \<Longrightarrow>
   map fst gains' = fold (\<lambda>m ks. if m \<in> set ks then ks else ks @ [m]) ms (map fst gains)"
proof (induction ms arbitrary: matrix gains g)
  case Nil
  then show ?case by simp
next
  case (Cons model ms)
  from Cons.prems obtain adaps g1 where
    gl: "grid_loop kl key model grid [] g = Inr (adaps, g1)"
    by (cases "grid_loop kl key model grid [] g") auto
  let ?gains = "dict_set gains model (model_gain (int (kl div 2)) adaps)"
  from Cons.prems gl
  have "model_loop kl key grid ms (matrix @ [adaps]) ?gains g1 = Inr (matrix', gains', g')"
    by simp
  from Cons.IH [OF this] show ?case
    by (simp add: dict_set_keys)
qed

lemma model_loop_gains:
  "model_loop kl key grid ms matrix gains g = Inr (matrix', gains', g') \<Longrightarrow>
   (m, gn) \<in> set gains' \<Longrightarrow>
   (m, gn) \<in> set gains \<or>
   (\<exists>i<length ms. ms ! i = m \<and> gn = model_gain (int (kl div 2)) (matrix' ! (length matrix + i)))"
proof (induction ms arbitrary: matrix gains g)
  case Nil
  then show ?case by simp
next
  case (Cons model ms)
  from Cons.prems(1) obtain adaps g1 where
    gl: "grid_loop kl key model grid [] g = Inr (adaps, g1)"
    by (cases "grid_loop kl key model grid [] g") auto
  let ?G = "model_gain (int (kl div 2)) adaps"
  let ?gains = "dict_set gains model ?G"
  from Cons.prems(1) gl
  have ml: "model_loop kl key grid ms (matrix @ [adaps]) ?gains g1 = Inr (matrix', gains', g')"
    by simp
  from model_loop_matrix [OF ml] obtain new where "matrix' = (matrix @ [adaps]) @ new"
    by blast
  then have row: "matrix' ! length matrix = adaps"
    by (simp add: nth_append)
  from Cons.IH [OF ml Cons.prems(2)] consider
    (old) "(m, gn) \<in> set ?gains"
  | (new) i where "i < length ms" "ms ! i = m"
      "gn = model_gain (int (kl div 2)) (matrix' ! (length (matrix @ [adaps]) + i))"
    by blast
  then show ?case
  proof cases
    case old
    with dict_set_items [of gains model ?G]
    have "(m, gn) = (model, ?G) \<or> (m, gn) \<in> set gains" by blast
    then show ?thesis
    proof
      assume "(m, gn) = (model, ?G)"
      with row have "(model # ms) ! 0 = m \<and>
          gn = model_gain (int (kl div 2)) (matrix' ! (length matrix + 0))"
        by simp
      then show ?thesis by blast
    next
      assume "(m, gn) \<in> set gains"
      then show ?thesis by simp
    qed
  next
    case new
    then have "Suc i < length (model # ms) \<and> (model # ms) ! Suc i = m \<and>
        gn = model_gain (int (kl div 2)) (matrix' ! (length matrix + Suc i))"
      by simp
    then show ?thesis by blast
  qed
qed

lemma model_loop_total:
  "key \<noteq> [] \<or> grid = [] \<Longrightarrow> \<exists>r. model_loop kl key grid ms matrix gains g = Inr r"
proof (induction ms arbitrary: matrix gains g)
  case Nil
  show ?case by simp
next
  case (Cons model ms)
  from grid_loop_total' [OF Cons.prems, of kl model "[]" g]
  obtain adaps g1 where gl: "grid_loop kl key model grid [] g = Inr (adaps, g1)"
    by (metis surj_pair)
  show ?case
    using Cons.IH [OF Cons.prems] gl by simp
qed

lemma first_occurrences:
  "fold (\<lambda>m ks. if m \<in> set ks then ks else ks @ [m]) ms [] = rev (remdups (rev ms))"
proof (induction ms rule: rev_induct)
  case Nil
  show ?case by simp
next
  case (snoc m ms)
  then show ?case by simp
qed

subsection \<open>Selecting the best and the worst model\<close>

lemma first_best_step:
  assumes nums: "\<forall>z \<in> set (ys @ [y]). \<exists>r. snd z = Num r"
    and k: "k < length ys" "ys ! k = b"
      "\<forall>j<k. flt (snd (ys ! j)) (snd b)"
      "\<forall>z \<in> set ys. fle (snd z) (snd b)"
    and b': "b' = (if fgt (snd y) (snd b) then y else b)"
  shows "\<exists>k'<length (ys @ [y]). (ys @ [y]) ! k' = b' \<and>
           (\<forall>j<k'. flt (snd ((ys @ [y]) ! j)) (snd b')) \<and>
           (\<forall>z \<in> set (ys @ [y]). fle (snd z) (snd b'))"
proof -
  from nums obtain ry where ry: "snd y = Num ry" by auto
  from k(1,2) have "b \<in> set ys" by auto
  with nums obtain rb where rb: "snd b = Num rb" by auto
  show ?thesis
  proof (cases "rb < ry")
    case True
    then have b'y: "b' = y" using b' ry rb by simp
    have below: "flt (snd z) (snd y)" if "z \<in> set ys" for z
    proof -
      from that nums obtain rz where rz: "snd z = Num rz" by auto
      from k(4) that rz rb have "rz \<le> rb" by auto
      with True rz ry show ?thesis by simp
    qed
    have 1: "length ys < length (ys @ [y])" by simp
    have 2: "(ys @ [y]) ! length ys = b'" using b'y by simp
    have 3: "\<forall>j<length ys. flt (snd ((ys @ [y]) ! j)) (snd b')"
      using below b'y by (simp add: nth_append)
    have 4: "\<forall>z \<in> set (ys @ [y]). fle (snd z) (snd b')"
    proof
      fix z assume "z \<in> set (ys @ [y])"
      then consider "z = y" | "z \<in> set ys" by auto
      then show "fle (snd z) (snd b')"
      proof cases
        case 1 with ry b'y show ?thesis by simp
      next
        case 2
        from 2 nums obtain rz where rz: "snd z = Num rz" by auto
        from below [OF 2] rz ry b'y show ?thesis by simp
      qed
    qed
    from 1 2 3 4 show ?thesis by blast
  next
    case False
    then have b'b: "b' = b" using b' ry rb by simp
    have 1: "k < length (ys @ [y])" using k(1) by simp
    have 2: "(ys @ [y]) ! k = b'" using k(1,2) b'b by (simp add: nth_append)
    have 3: "\<forall>j<k. flt (snd ((ys @ [y]) ! j)) (snd b')"
      using k(1,3) b'b by (simp add: nth_append)
    have 4: "\<forall>z \<in> set (ys @ [y]). fle (snd z) (snd b')"
      using k(4) False ry rb b'b by simp
    from 1 2 3 4 show ?thesis by blast
  qed
qed

lemma foldl_max_first:
  "\<forall>y \<in> set (x # xs). \<exists>r. snd y = Num r \<Longrightarrow>
   \<exists>k<length (x # xs).
     (x # xs) ! k = foldl (\<lambda>best y. if fgt (snd y) (snd best) then y else best) x xs \<and>
     (\<forall>j<k. flt (snd ((x # xs) ! j))
              (snd (foldl (\<lambda>best y. if fgt (snd y) (snd best) then y else best) x xs))) \<and>
     (\<forall>y \<in> set (x # xs). fle (snd y)
              (snd (foldl (\<lambda>best y. if fgt (snd y) (snd best) then y else best) x xs)))"
proof (induction xs rule: rev_induct)
  case Nil
  then have "fle (snd x) (snd x)" by auto
  then show ?case by simp
next
  case (snoc y xs)
  define b where "b = foldl (\<lambda>best y. if fgt (snd y) (snd best) then y else best) x xs"
  define b' where "b' = foldl (\<lambda>best y. if fgt (snd y) (snd best) then y else best) x (xs @ [y])"
  have step: "b' = (if fgt (snd y) (snd b) then y else b)"
    by (simp add: b_def b'_def)
  from snoc.prems have nums: "\<forall>z \<in> set (x # xs). \<exists>r. snd z = Num r" by simp
  from snoc.prems have nums': "\<forall>z \<in> set ((x # xs) @ [y]). \<exists>r. snd z = Num r" by simp
  from snoc.IH [OF nums] obtain k where
    k: "k < length (x # xs)" "(x # xs) ! k = b"
       "\<forall>j<k. flt (snd ((x # xs) ! j)) (snd b)"
       "\<forall>z \<in> set (x # xs). fle (snd z) (snd b)"
    unfolding b_def by blast
  from first_best_step [OF nums' k step]
  show ?case unfolding b'_def by simp
qed

lemma first_least_step:
  assumes nums: "\<forall>z \<in> set (ys @ [y]). \<exists>r. snd z = Num r"
    and k: "k < length ys" "ys ! k = b"
      "\<forall>j<k. flt (snd b) (snd (ys ! j))"
      "\<forall>z \<in> set ys. fle (snd b) (snd z)"
    and b': "b' = (if flt (snd y) (snd b) then y else b)"
  shows "\<exists>k'<length (ys @ [y]). (ys @ [y]) ! k' = b' \<and>
           (\<forall>j<k'. flt (snd b') (snd ((ys @ [y]) ! j))) \<and>
           (\<forall>z \<in> set (ys @ [y]). fle (snd b') (snd z))"
proof -
  from nums obtain ry where ry: "snd y = Num ry" by auto
  from k(1,2) have "b \<in> set ys" by auto
  with nums obtain rb where rb: "snd b = Num rb" by auto
  show ?thesis
  proof (cases "ry < rb")
    case True
    then have b'y: "b' = y" using b' ry rb by simp
    have above: "flt (snd y) (snd z)" if "z \<in> set ys" for z
    proof -
      from that nums obtain rz where rz: "snd z = Num rz" by auto
      from k(4) that rz rb have "rb \<le> rz" by auto
      with True rz ry show ?thesis by simp
    qed
    have 1: "length ys < length (ys @ [y])" by simp
    have 2: "(ys @ [y]) ! length ys = b'" using b'y by simp
    have 3: "\<forall>j<length ys. flt (snd b') (snd ((ys @ [y]) ! j))"
      using above b'y by (simp add: nth_append)
    have 4: "\<forall>z \<in> set (ys @ [y]). fle (snd b') (snd z)"
    proof
      fix z assume "z \<in> set (ys @ [y])"
      then consider "z = y" | "z \<in> set ys" by auto
      then show "fle (snd b') (snd z)"
      proof cases
        case 1 with ry b'y show ?thesis by simp
      next
        case 2
        from 2 nums obtain rz where rz: "snd z = Num rz" by auto
        from above [OF 2] rz ry b'y show ?thesis by simp
      qed
    qed
    from 1 2 3 4 show ?thesis by blast
  next
    case False
    then have b'b: "b' = b" using b' ry rb by simp
    have 1: "k < length (ys @ [y])" using k(1) by simp
    have 2: "(ys @ [y]) ! k = b'" using k(1,2) b'b by (simp add: nth_append)
    have 3: "\<forall>j<k. flt (snd b') (snd ((ys @ [y]) ! j))"
      using k(1,3) b'b by (simp add: nth_append)
    have 4: "\<forall>z \<in> set (ys @ [y]). fle (snd b') (snd z)"
      using k(4) False ry rb b'b by simp
    from 1 2 3 4 show ?thesis by blast
  qed
qed

lemma foldl_min_first:
  "\<forall>y \<in> set (x # xs). \<exists>r. snd y = Num r \<Longrightarrow>
   \<exists>k<length (x # xs).
     (x # xs) ! k = foldl (\<lambda>best y. if flt (snd y) (snd best) then y else best) x xs \<and>
     (\<forall>j<k. flt (snd (foldl (\<lambda>best y. if flt (snd y) (snd best) then y else best) x xs))
              (snd ((x # xs) ! j))) \<and>
     (\<forall>y \<in> set (x # xs).
         fle (snd (foldl (\<lambda>best y. if flt (snd y) (snd best) then y else best) x xs)) (snd y))"
proof (induction xs rule: rev_induct)
  case Nil
  then have "fle (snd x) (snd x)" by auto
  then show ?case by simp
next
  case (snoc y xs)
  define b where "b = foldl (\<lambda>best y. if flt (snd y) (snd best) then y else best) x xs"
  define b' where "b' = foldl (\<lambda>best y. if flt (snd y) (snd best) then y else best) x (xs @ [y])"
  have step: "b' = (if flt (snd y) (snd b) then y else b)"
    by (simp add: b_def b'_def)
  from snoc.prems have nums: "\<forall>z \<in> set (x # xs). \<exists>r. snd z = Num r" by simp
  from snoc.prems have nums': "\<forall>z \<in> set ((x # xs) @ [y]). \<exists>r. snd z = Num r" by simp
  from snoc.IH [OF nums] obtain k where
    k: "k < length (x # xs)" "(x # xs) ! k = b"
       "\<forall>j<k. flt (snd b) (snd ((x # xs) ! j))"
       "\<forall>z \<in> set (x # xs). fle (snd b) (snd z)"
    unfolding b_def by blast
  from first_least_step [OF nums' k step]
  show ?case unfolding b'_def by simp
qed

lemma py_max_item_first:
  assumes nums: "\<forall>y \<in> set d. \<exists>r. snd y = Num r" and mx: "py_max_item d = Inr (m, v)"
  shows "(\<exists>k<length d. d ! k = (m, v) \<and> (\<forall>j<k. flt (snd (d ! j)) v)) \<and>
         (\<forall>y \<in> set d. fle (snd y) v)"
proof (cases d)
  case Nil
  with mx show ?thesis by simp
next
  case (Cons x xs)
  with mx have r: "foldl (\<lambda>best y. if fgt (snd y) (snd best) then y else best) x xs = (m, v)"
    by simp
  from foldl_max_first [of x xs] nums Cons show ?thesis
    unfolding r by (simp only: snd_conv) blast
qed

lemma py_min_item_first:
  assumes nums: "\<forall>y \<in> set d. \<exists>r. snd y = Num r" and mn: "py_min_item d = Inr (m, v)"
  shows "(\<exists>k<length d. d ! k = (m, v) \<and> (\<forall>j<k. flt v (snd (d ! j)))) \<and>
         (\<forall>y \<in> set d. fle v (snd y))"
proof (cases d)
  case Nil
  with mn show ?thesis by simp
next
  case (Cons x xs)
  with mn have r: "foldl (\<lambda>best y. if flt (snd y) (snd best) then y else best) x xs = (m, v)"
    by simp
  from foldl_min_first [of x xs] nums Cons show ?thesis
    unfolding r by (simp only: snd_conv) blast
qed

lemma foldl_select_mem:
  "foldl (\<lambda>best y. if P y best then y else best) x xs \<in> set (x # xs)"
  by (induction xs arbitrary: x) auto

lemma py_max_item_mem:
  assumes "py_max_item d = Inr r"
  shows "r \<in> set d"
proof (cases d)
  case Nil
  with assms show ?thesis by simp
next
  case (Cons x xs)
  with assms have "r = foldl (\<lambda>best y. if fgt (snd y) (snd best) then y else best) x xs"
    by simp
  then have "r \<in> set (x # xs)"
    by (simp only: foldl_select_mem [of "\<lambda>y best. fgt (snd y) (snd best)" x xs])
  with Cons show ?thesis by simp
qed

lemma py_min_item_mem:
  assumes "py_min_item d = Inr r"
  shows "r \<in> set d"
proof (cases d)
  case Nil
  with assms show ?thesis by simp
next
  case (Cons x xs)
  with assms have "r = foldl (\<lambda>best y. if flt (snd y) (snd best) then y else best) x xs"
    by simp
  then have "r \<in> set (x # xs)"
    by (simp only: foldl_select_mem [of "\<lambda>y best. flt (snd y) (snd best)" x xs])
  with Cons show ?thesis by simp
qed

lemma py_max_item_total: "d \<noteq> [] \<Longrightarrow> \<exists>r. py_max_item d = Inr r"
  by (cases d) auto

lemma py_min_item_total: "d \<noteq> [] \<Longrightarrow> \<exists>r. py_min_item d = Inr r"
  by (cases d) auto

lemma list_index_mem:
  "x \<in> set xs \<Longrightarrow> \<exists>n<length xs. list_index xs x = Inr n"
  by (induction xs) auto

lemma plot_indexing_result:
  assumes "best \<in> set models" "worst \<in> set models"
    and len: "length matrix = length models"
    and rows: "\<forall>row \<in> set matrix. length row = length grid"
  shows "plot_indexing grid models matrix best worst =
           (if grid = [] then Inl IndexError else Inr ())"
proof -
  from list_index_mem [OF assms(1)] obtain ib where
    ib: "ib < length models" "list_index models best = Inr ib" by blast
  from list_index_mem [OF assms(2)] obtain iw where
    iw: "iw < length models" "list_index models worst = Inr iw" by blast
  have rb: "get_row matrix ib = Inr (matrix ! ib)" and rw: "get_row matrix iw = Inr (matrix ! iw)"
    using ib(1) iw(1) len by (simp_all add: get_row_def)
  have "length (matrix ! ib) = length grid" "length (matrix ! iw) = length grid"
    using rows ib(1) iw(1) len by simp_all
  then have e: "(matrix ! ib = []) = (grid = [])" "(matrix ! iw = []) = (grid = [])"
    by auto
  show ?thesis
    unfolding plot_indexing_def
    by (simp add: ib(2) iw(2) rb rw and_then_def get_last_def e)
qed

lemma model_loop_run:
  assumes ml: "model_loop kl key grid models [] [] g = Inr (matrix, gains, g')"
  shows "length matrix = length models"
    and "\<forall>row \<in> set matrix. length row = length grid \<and> (\<forall>a \<in> set row. int (kl div 2) \<le> a)"
    and "map fst gains = rev (remdups (rev models))"
    and "\<forall>(m, gn) \<in> set gains. \<exists>i<length models. models ! i = m \<and>
            gn = model_gain (int (kl div 2)) (matrix ! i)"
proof -
  from model_loop_matrix [OF ml] show "length matrix = length models"
    and "\<forall>row \<in> set matrix. length row = length grid \<and> (\<forall>a \<in> set row. int (kl div 2) \<le> a)"
    by auto
  from model_loop_keys [OF ml] show "map fst gains = rev (remdups (rev models))"
    by (simp add: first_occurrences)
  show "\<forall>(m, gn) \<in> set gains. \<exists>i<length models. models ! i = m \<and>
            gn = model_gain (int (kl div 2)) (matrix ! i)"
    using model_loop_gains [OF ml] by fastforce
qed

lemma gains_keys_models:
  assumes "map fst gains = rev (remdups (rev models))" "(m, gn) \<in> set gains"
  shows "m \<in> set models"
proof -
  from assms(2) have "m \<in> set (map fst gains)" by force
  with assms(1) show ?thesis by simp
qed

subsection \<open>The function as a whole\<close>

lemma and_then_Inr:
  "and_then r f = Inr y \<Longrightarrow> \<exists>x. r = Inr x \<and> f x = Inr y"
  by (cases r) (simp_all add: and_then_def)

lemma plot_indexing_grid:
  "plot_indexing grid models matrix best worst = Inr u \<Longrightarrow> grid \<noteq> []"
  unfolding plot_indexing_def
  by (auto dest!: and_then_Inr simp: get_last_def split: if_splits)

lemma sweep_parts:
  assumes "unified_comparison_all_models kl key models grid g = Inr s"
  shows "\<exists>g'. model_loop kl key grid models [] [] g = Inr (adaptive_matrix s, model_gains s, g') \<and>
           py_max_item (model_gains s) = Inr (best_model s, best_gain s) \<and>
           py_min_item (model_gains s) = Inr (worst_model s, worst_gain s) \<and>
           grid \<noteq> []"
proof -
  from assms obtain matrix gains g' where
    ml: "model_loop kl key grid models [] [] g = Inr (matrix, gains, g')"
    unfolding unified_comparison_all_models_def Let_def
    by (auto dest!: and_then_Inr)
  from assms ml obtain best bgain where
    mx: "py_max_item gains = Inr (best, bgain)"
    unfolding unified_comparison_all_models_def Let_def
    by (auto dest!: and_then_Inr)
  from assms ml mx obtain worst wgain where
    mn: "py_min_item gains = Inr (worst, wgain)"
    unfolding unified_comparison_all_models_def Let_def
    by (auto dest!: and_then_Inr)
  from assms ml mx mn obtain u where
    pl: "plot_indexing grid models matrix best worst = Inr u"
    unfolding unified_comparison_all_models_def Let_def
    by (auto dest!: and_then_Inr)
  from assms ml mx mn pl have
    "adaptive_matrix s = matrix \<and> model_gains s = gains \<and>
     best_model s = best \<and> best_gain s = bgain \<and>
     worst_model s = worst \<and> worst_gain s = wgain"
    unfolding unified_comparison_all_models_def Let_def
    by (auto dest!: and_then_Inr)
  with ml mx mn plot_indexing_grid [OF pl] show ?thesis by auto
qed

lemma sweep_gains_num:
  assumes ml: "model_loop kl key grid models [] [] g = Inr (matrix, gains, g')"
    and grid: "grid \<noteq> []"
    and mem: "(m, gn) \<in> set gains"
  shows "\<exists>i<length models. models ! i = m \<and>
           gn = Num ((\<Sum>a\<leftarrow>matrix ! i. real_of_int (a - int (kl div 2))) / real (length grid)) \<and>
           0 \<le> (\<Sum>a\<leftarrow>matrix ! i. real_of_int (a - int (kl div 2))) / real (length grid)"
proof -
  from model_loop_run(4) [OF ml] mem obtain i where
    i: "i < length models" "models ! i = m" "gn = model_gain (int (kl div 2)) (matrix ! i)"
    by blast
  from i(1) model_loop_run(1) [OF ml] have "matrix ! i \<in> set matrix" by simp
  with model_loop_run(2) [OF ml] have
    row: "length (matrix ! i) = length grid" "\<forall>a \<in> set (matrix ! i). int (kl div 2) \<le> a"
    by auto
  from row(1) grid have ne: "matrix ! i \<noteq> []" by auto
  have "0 \<le> (\<Sum>a\<leftarrow>matrix ! i. real_of_int (a - int (kl div 2)))"
    using row(2) by (intro sum_list_nonneg) auto
  then have "0 \<le> (\<Sum>a\<leftarrow>matrix ! i. real_of_int (a - int (kl div 2))) / real (length grid)"
    by simp
  moreover have "gn = Num ((\<Sum>a\<leftarrow>matrix ! i. real_of_int (a - int (kl div 2))) / real (length grid))"
    using i(3) ne row(1) by (simp add: model_gain_value)
  ultimately show ?thesis using i(1,2) by blast
qed

lemma model_loop_gains_nonempty:
  "model_loop kl key grid ms matrix gains g = Inr (matrix', gains', g') \<Longrightarrow>
   ms \<noteq> [] \<or> gains \<noteq> [] \<Longrightarrow> gains' \<noteq> []"
proof (induction ms arbitrary: matrix gains g)
  case Nil
  then show ?case by simp
next
  case (Cons model ms)
  from Cons.prems(1) obtain adaps g1 where
    gl: "grid_loop kl key model grid [] g = Inr (adaps, g1)"
    by (cases "grid_loop kl key model grid [] g") auto
  let ?gains = "dict_set gains model (model_gain (int (kl div 2)) adaps)"
  from Cons.prems(1) gl
  have "model_loop kl key grid ms (matrix @ [adaps]) ?gains g1 = Inr (matrix', gains', g')"
    by simp
  from Cons.IH [OF this] dict_set_nonempty [of gains model] show ?case by blast
qed

lemma sweep_after_loop:
  assumes ml: "model_loop kl key grid models [] [] g = Inr (matrix, gains, g')"
    and models: "models \<noteq> []"
  shows "\<exists>r rs best bgain worst wgain.
           matrix = r # rs \<and> length r = length grid \<and>
           py_max_item gains = Inr (best, bgain) \<and>
           py_min_item gains = Inr (worst, wgain) \<and>
           plot_indexing grid models matrix best worst =
             (if grid = [] then Inl IndexError else Inr ())"
proof -
  from model_loop_run(1) [OF ml] models obtain r rs where m: "matrix = r # rs"
    by (cases matrix) auto
  from model_loop_run(2) [OF ml] m have lr: "length r = length grid" by simp
  from model_loop_gains_nonempty [OF ml] models have ne: "gains \<noteq> []" by simp
  from py_max_item_total [OF ne] obtain best bgain where
    mx: "py_max_item gains = Inr (best, bgain)" by (metis surj_pair)
  from py_min_item_total [OF ne] obtain worst wgain where
    mn: "py_min_item gains = Inr (worst, wgain)" by (metis surj_pair)
  have b: "best \<in> set models"
    using gains_keys_models [OF model_loop_run(3) [OF ml] py_max_item_mem [OF mx]] .
  have w: "worst \<in> set models"
    using gains_keys_models [OF model_loop_run(3) [OF ml] py_min_item_mem [OF mn]] .
  have rows: "\<forall>row \<in> set matrix. length row = length grid"
    using model_loop_run(2) [OF ml] by blast
  from plot_indexing_result [OF b w model_loop_run(1) [OF ml] rows] m lr mx mn
  show ?thesis by blast
qed

text \<open>
  With a non-empty key, a non-empty model list and a non-empty grid the function
  completes.
\<close>

lemma sweep_completes:
  assumes "key \<noteq> []" "models \<noteq> []" "grid \<noteq> []"
  shows "\<exists>s. unified_comparison_all_models kl key models grid g = Inr s"
proof -
  from model_loop_total [of key grid kl models "[]" "[]" g] assms(1)
  obtain matrix gains g' where
    ml: "model_loop kl key grid models [] [] g = Inr (matrix, gains, g')"
    by (metis surj_pair)
  from sweep_after_loop [OF ml assms(2)] assms(3) obtain r rs best bgain worst wgain where
    p: "matrix = r # rs" "length r = length grid" "py_max_item gains = Inr (best, bgain)"
    "py_min_item gains = Inr (worst, wgain)"
    "plot_indexing grid models matrix best worst = Inr ()"
    by auto
  from p(2) assms(3) have "mean_axis0 (r # rs) \<noteq> []" by auto
  with ml p show ?thesis
    by (simp add: unified_comparison_all_models_def and_then_def get_last_def Let_def)
qed

text \<open>
  So does the run of the source: a key of 512 symbols, the twelve models and the grid
  of twelve probabilities. Its dictionary of gains has the twelve models in the order
  of the list.
\<close>

lemma source_run_completes:
  assumes "length original_key = key_length"
  shows "\<exists>s. unified_comparison_all_models key_length original_key noise_models noise_range g = Inr s
             \<and> map fst (model_gains s) = noise_models
             \<and> length (adaptive_matrix s) = 12
             \<and> (\<forall>row \<in> set (adaptive_matrix s). length row = 12)"
proof -
  have k: "original_key \<noteq> []" using assms by (auto simp: key_length_def)
  have m: "noise_models \<noteq> []" by (simp add: noise_models_def)
  have g: "noise_range \<noteq> []" "length noise_range = 12" by (simp_all add: noise_range_def)
  from sweep_completes [OF k m g(1)] obtain s where
    s: "unified_comparison_all_models key_length original_key noise_models noise_range g = Inr s"
    by blast
  from sweep_parts [OF s] obtain g' where
    ml: "model_loop key_length original_key noise_range noise_models [] [] g =
           Inr (adaptive_matrix s, model_gains s, g')"
    by blast
  have "distinct noise_models" by (simp add: noise_models_def)
  then have "rev (remdups (rev noise_models)) = noise_models"
    by (simp add: distinct_remdups_id)
  with model_loop_run(3) [OF ml] have "map fst (model_gains s) = noise_models" by simp
  moreover from model_loop_run(1) [OF ml] have "length (adaptive_matrix s) = 12"
    by (simp add: noise_models_def)
  moreover from model_loop_run(2) [OF ml] g(2)
  have "\<forall>row \<in> set (adaptive_matrix s). length row = 12" by simp
  ultimately show ?thesis using s by blast
qed

subsection \<open>A run\<close>

lemma log2_half: "log 2 (1 / 2) = - 1"
  by (simp only: log_recip) simp

lemma shannon_entropy_half: "shannon_entropy (1 / 2) = Num 1"
  by (simp add: shannon_entropy_def log2_half)

lemma shannon_entropy_zero: "shannon_entropy 0 = Num 0"
  by (simp add: shannon_entropy_def)

lemma noisy_pf: "apply_noise ''01'' (1 / 2) ''Phase Flip'' (const_rng 0 False 0) = (''01'', const_rng 0 False 0)"
  by (simp add: apply_noise_def noise_rule_def)

lemma noisy_ad: "apply_noise ''01'' (1 / 2) ''Amplitude Damping'' (const_rng 0 False 0) = (''00'', const_rng 0 False 0)"
  by (simp add: apply_noise_def noise_rule_def)

lemma noisy_pd: "apply_noise ''01'' (1 / 2) ''Phase Damping'' (const_rng 0 False 0) = (''01'', const_rng 0 False 0)"
  by (simp add: apply_noise_def noise_rule_def)

lemma retained_one: "retained_bits 2 (Num 1) = 2"
  by (simp add: retained_bits_def py_int_def adaptive_amplification_def)

lemma retained_zero: "retained_bits 2 (Num 0) = 1"
  by (simp add: retained_bits_def py_int_def adaptive_amplification_def)

lemma grid_pf: "grid_loop 2 ''01'' ''Phase Flip'' [1 / 2] [] (const_rng 0 False 0) = Inr ([2], const_rng 0 False 0)"
  by (simp add: noisy_pf qber_def shannon_entropy_zero retained_one)

lemma grid_ad: "grid_loop 2 ''01'' ''Amplitude Damping'' [1 / 2] [] (const_rng 0 False 0) = Inr ([1], const_rng 0 False 0)"
  by (simp add: noisy_ad qber_def shannon_entropy_half retained_zero)

lemma grid_pd: "grid_loop 2 ''01'' ''Phase Damping'' [1 / 2] [] (const_rng 0 False 0) = Inr ([2], const_rng 0 False 0)"
  by (simp add: noisy_pd qber_def shannon_entropy_zero retained_one)

lemma loop_example:
  "model_loop 2 ''01'' [1 / 2] [''Phase Flip'', ''Amplitude Damping'', ''Phase Damping''] [] []
     (const_rng 0 False 0) =
   Inr ([[2], [1], [2]],
        [(''Phase Flip'', Num 1), (''Amplitude Damping'', Num 0), (''Phase Damping'', Num 1)],
        const_rng 0 False 0)"
  by (simp add: grid_pf grid_ad grid_pd model_gain_def np_mean_def del: grid_loop.simps)

lemma sweep_example_run:
  "unified_comparison_all_models 2 ''01''
     [''Phase Flip'', ''Amplitude Damping'', ''Phase Damping''] [1 / 2] (const_rng 0 False 0) =
   Inr sweep_example"
  by (simp add: unified_comparison_all_models_def loop_example and_then_def np_mean_def
      plot_indexing_def get_row_def get_last_def sweep_example_def Let_def
      del: model_loop.simps)

subsection \<open>The claims on the sweep\<close>

text \<open>
  Claim C3. For a sweep that completes: the dictionary of gains has the models as
  keys in the order of their first occurrence in the model list; each gain is the mean
  over the grid of a row of retained-bit counts of that model minus the static
  baseline; the best model is an entry whose gain is at least every gain, the worst
  model an entry whose gain is at most every gain; and each of the two is the first
  such entry in the order of the dictionary, every entry before it being strictly
  worse, respectively strictly better.
\<close>

theorem sweep_best_worst:
  assumes run: "unified_comparison_all_models kl key models grid g = Inr s"
  shows "map fst (model_gains s) = rev (remdups (rev models)) \<and>
         length (adaptive_matrix s) = length models \<and>
         (\<forall>(m, gn) \<in> set (model_gains s). \<exists>i<length models. models ! i = m \<and>
            gn = Num ((\<Sum>a\<leftarrow>adaptive_matrix s ! i. real_of_int (a - int (kl div 2)))
                      / real (length grid))) \<and>
         (\<exists>k<length (model_gains s). model_gains s ! k = (best_model s, best_gain s) \<and>
            (\<forall>j<k. flt (snd (model_gains s ! j)) (best_gain s))) \<and>
         (\<forall>(m, gn) \<in> set (model_gains s). fle gn (best_gain s)) \<and>
         (\<exists>k<length (model_gains s). model_gains s ! k = (worst_model s, worst_gain s) \<and>
            (\<forall>j<k. flt (worst_gain s) (snd (model_gains s ! j)))) \<and>
         (\<forall>(m, gn) \<in> set (model_gains s). fle (worst_gain s) gn)"
proof -
  from sweep_parts [OF run] obtain g' where
    ml: "model_loop kl key grid models [] [] g = Inr (adaptive_matrix s, model_gains s, g')"
    and mx: "py_max_item (model_gains s) = Inr (best_model s, best_gain s)"
    and mn: "py_min_item (model_gains s) = Inr (worst_model s, worst_gain s)"
    and grid: "grid \<noteq> []"
    by blast
  have keys: "map fst (model_gains s) = rev (remdups (rev models))"
    by (rule model_loop_run(3) [OF ml])
  have len: "length (adaptive_matrix s) = length models"
    by (rule model_loop_run(1) [OF ml])
  have gains: "\<forall>(m, gn) \<in> set (model_gains s). \<exists>i<length models. models ! i = m \<and>
            gn = Num ((\<Sum>a\<leftarrow>adaptive_matrix s ! i. real_of_int (a - int (kl div 2)))
                      / real (length grid))"
    using sweep_gains_num [OF ml grid] by blast
  then have nums: "\<forall>y \<in> set (model_gains s). \<exists>r. snd y = Num r"
    by fastforce
  have b1: "\<exists>k<length (model_gains s). model_gains s ! k = (best_model s, best_gain s) \<and>
            (\<forall>j<k. flt (snd (model_gains s ! j)) (best_gain s))"
    using py_max_item_first [OF nums mx] by blast
  have b2: "\<forall>(m, gn) \<in> set (model_gains s). fle gn (best_gain s)"
    using py_max_item_first [OF nums mx] by auto
  have w1: "\<exists>k<length (model_gains s). model_gains s ! k = (worst_model s, worst_gain s) \<and>
            (\<forall>j<k. flt (worst_gain s) (snd (model_gains s ! j)))"
    using py_min_item_first [OF nums mn] by blast
  have w2: "\<forall>(m, gn) \<in> set (model_gains s). fle (worst_gain s) gn"
    using py_min_item_first [OF nums mn] by auto
  show ?thesis
    by (intro conjI keys len gains b1 b2 w1 w2)
qed

theorem sweep_best_worst_witness:
  "unified_comparison_all_models 2 ''01''
     [''Phase Flip'', ''Amplitude Damping'', ''Phase Damping''] [1 / 2] (const_rng 0 False 0) =
     Inr sweep_example \<and>
   map fst (model_gains sweep_example) =
     [''Phase Flip'', ''Amplitude Damping'', ''Phase Damping''] \<and>
   length (adaptive_matrix sweep_example) = 3 \<and>
   best_model sweep_example = ''Phase Flip'' \<and>
   worst_model sweep_example = ''Amplitude Damping'' \<and>
   fle (snd (model_gains sweep_example ! 2)) (best_gain sweep_example) \<and>
   fle (worst_gain sweep_example) (snd (model_gains sweep_example ! 0))"
proof -
  note t = sweep_best_worst [OF sweep_example_run]
  from t have "map fst (model_gains sweep_example) =
      rev (remdups (rev [''Phase Flip'', ''Amplitude Damping'', ''Phase Damping'']))"
    by blast
  then have keys: "map fst (model_gains sweep_example) =
      [''Phase Flip'', ''Amplitude Damping'', ''Phase Damping'']"
    by simp
  from t have len: "length (adaptive_matrix sweep_example) = 3"
    by simp
  have mem: "model_gains sweep_example ! 2 \<in> set (model_gains sweep_example)"
       "model_gains sweep_example ! 0 \<in> set (model_gains sweep_example)"
    by (simp_all add: sweep_example_def)
  from t have "\<forall>(m, gn) \<in> set (model_gains sweep_example). fle gn (best_gain sweep_example)"
    by blast
  with mem(1) have b: "fle (snd (model_gains sweep_example ! 2)) (best_gain sweep_example)"
    by (auto simp: case_prod_beta)
  from t have "\<forall>(m, gn) \<in> set (model_gains sweep_example). fle (worst_gain sweep_example) gn"
    by blast
  with mem(2) have w: "fle (worst_gain sweep_example) (snd (model_gains sweep_example ! 0))"
    by (auto simp: case_prod_beta)
  have "best_model sweep_example = ''Phase Flip''"
       "worst_model sweep_example = ''Amplitude Damping''"
    by (simp_all add: sweep_example_def)
  with sweep_example_run keys len b w show ?thesis by blast
qed

text \<open>
  Claim C10. For a sweep that completes, every retained-bit count of every model at
  every grid point is at least the static baseline \<open>key_length // 2\<close>, and every
  gain over the static baseline is a number that is not negative, the gain of the
  worst model and that of the best model among them.
\<close>

theorem sweep_gains_nonneg:
  assumes run: "unified_comparison_all_models kl key models grid g = Inr s"
  shows "(\<forall>row \<in> set (adaptive_matrix s). \<forall>a \<in> set row. int (kl div 2) \<le> a) \<and>
         (\<forall>(m, gn) \<in> set (model_gains s). fle (Num 0) gn) \<and>
         fle (Num 0) (worst_gain s) \<and> fle (Num 0) (best_gain s)"
proof -
  from sweep_parts [OF run] obtain g' where
    ml: "model_loop kl key grid models [] [] g = Inr (adaptive_matrix s, model_gains s, g')"
    and mx: "py_max_item (model_gains s) = Inr (best_model s, best_gain s)"
    and mn: "py_min_item (model_gains s) = Inr (worst_model s, worst_gain s)"
    and grid: "grid \<noteq> []"
    by blast
  have rows: "\<forall>row \<in> set (adaptive_matrix s). \<forall>a \<in> set row. int (kl div 2) \<le> a"
    using model_loop_run(2) [OF ml] by blast
  have gains: "fle (Num 0) gn" if "(m, gn) \<in> set (model_gains s)" for m gn
    using sweep_gains_num [OF ml grid that] by auto
  from py_max_item_mem [OF mx] have "fle (Num 0) (best_gain s)" by (rule gains)
  moreover from py_min_item_mem [OF mn] have "fle (Num 0) (worst_gain s)" by (rule gains)
  ultimately show ?thesis using rows gains by auto
qed

theorem sweep_gains_nonneg_witness:
  "unified_comparison_all_models 2 ''01''
     [''Phase Flip'', ''Amplitude Damping'', ''Phase Damping''] [1 / 2] (const_rng 0 False 0) =
     Inr sweep_example \<and>
   fle (Num 0) (worst_gain sweep_example) \<and> fle (Num 0) (best_gain sweep_example)"
  using sweep_gains_nonneg [OF sweep_example_run] sweep_example_run by blast

subsection \<open>Empty inputs\<close>

text \<open>
  The function is the computation of the statistics followed by the plot and the two
  figures of the summary.
\<close>

lemma function_after_statistics:
  "unified_comparison_all_models kl key models grid g =
     and_then (sweep_statistics kl key models grid g) (\<lambda>st.
     and_then (plot_indexing grid models (st_adaptive_matrix st)
                 (st_best_model st) (st_worst_model st)) (\<lambda>_.
     and_then (get_last (st_mean_adaptive st)) (\<lambda>mean_last.
       Inr \<lparr>adaptive_matrix = st_adaptive_matrix st, model_gains = st_model_gains st,
            mean_adaptive = st_mean_adaptive st,
            min_adaptive = st_min_adaptive st, max_adaptive = st_max_adaptive st,
            best_model = st_best_model st, worst_model = st_worst_model st,
            best_gain = st_best_gain st, worst_gain = st_worst_gain st,
            avg_gain = np_mean (map (\<lambda>x. fsub x (Num (real_of_int (int (kl div 2)))))
                                  (st_mean_adaptive st)),
            gain_at_max = fsub mean_last (Num (real_of_int (int (kl div 2))))\<rparr>)))"
  by (simp add: unified_comparison_all_models_def sweep_statistics_def and_then_def Let_def
      split: sum.splits prod.splits)

text \<open>
  The function as a whole ends with an exception when the model list or the grid is
  empty: in the second case only at \<open>noise_range[-1]\<close>, an argument of the plot.
\<close>

lemma function_raises_on_empty:
  "(models = [] \<longrightarrow>
      unified_comparison_all_models kl key models grid g = Inl ValueError) \<and>
   (models \<noteq> [] \<and> grid = [] \<longrightarrow>
      unified_comparison_all_models kl key models grid g = Inl IndexError)"
proof -
  have "unified_comparison_all_models kl key [] grid g = Inl ValueError"
    by (simp add: unified_comparison_all_models_def and_then_def)
  moreover have "unified_comparison_all_models kl key models [] g = Inl IndexError"
    if models: "models \<noteq> []"
  proof -
    from model_loop_total [of key "[]" kl models "[]" "[]" g]
    obtain matrix gains g' where
      ml: "model_loop kl key [] models [] [] g = Inr (matrix, gains, g')"
      by (metis surj_pair)
    from sweep_after_loop [OF ml models] obtain r rs best bgain worst wgain where
      "matrix = r # rs" "py_max_item gains = Inr (best, bgain)"
      "py_min_item gains = Inr (worst, wgain)"
      "plot_indexing [] models matrix best worst = Inl IndexError"
      by auto
    with ml show ?thesis
      by (simp add: unified_comparison_all_models_def and_then_def)
  qed
  ultimately show ?thesis by blast
qed










end
